theory Spec2Isabelle
  imports
    Main
    "HOL-Library.Word"
    "HOL-Library.Char_ord"
    "HOL-Library.List_Lexorder"
begin

unbundle bit_operations_syntax

section \<open>Byte strings\<close>

text \<open>
  A \<^verbatim>\<open>std::string\<close> is a list of bytes, \<^typ>\<open>string\<close>.  With the two library
  theories imported above, \<open><\<close> on \<^typ>\<open>string\<close> is the lexicographic order by byte
  value, which is what \<^verbatim>\<open>operator<\<close> of \<^verbatim>\<open>std::string\<close> computes.  A
  \<^verbatim>\<open>shared_buffer\<close> that may be null is a \<^typ>\<open>string option\<close>.
\<close>

definition SP :: char where
  "SP = CHR '' ''"

definition LF :: char where
  "LF = CHR ''\<newline>''"

section \<open>The hasher (server.cpp, struct hasher)\<close>

subsection \<open>SHA-1\<close>

text \<open>
  Modelled from the spec: \<^verbatim>\<open>boost::uuids::detail::sha1\<close> is library code outside the
  repository; the specification names the function as SHA-1, so it is written here as FIPS
  180-4 defines it (and as Boost implements it: big-endian words, one 512-bit block at a
  time, the message length in bits appended as 64 bits).
\<close>

type_synonym u32 = "32 word"
type_synonym byte = "8 word"
type_synonym sha_state = "u32 \<times> u32 \<times> u32 \<times> u32 \<times> u32"

definition left_rotate :: "u32 \<Rightarrow> nat \<Rightarrow> u32" where
  "left_rotate x n = (push_bit n x) XOR (drop_bit (32 - n) x)"

fun block_words :: "byte list \<Rightarrow> u32 list" where
  "block_words (a # b # c # d # bs) =
     (push_bit 24 (ucast a) OR push_bit 16 (ucast b) OR push_bit 8 (ucast c) OR ucast d)
       # block_words bs"
| "block_words _ = []"

text \<open>
  The message schedule.  \<open>w\<close> holds the last sixteen words, so that
  \<open>w ! 13\<close>, \<open>w ! 8\<close>, \<open>w ! 2\<close> and \<open>w ! 0\<close> are the words 3, 8, 14 and 16 places back.
\<close>

fun expand :: "nat \<Rightarrow> u32 list \<Rightarrow> u32 list" where
  "expand 0 w = []"
| "expand (Suc n) w =
     (let x = left_rotate (w ! 13 XOR w ! 8 XOR w ! 2 XOR w ! 0) 1
      in x # expand n (tl w @ [x]))"

fun rounds :: "(u32 \<Rightarrow> u32 \<Rightarrow> u32 \<Rightarrow> u32) \<Rightarrow> u32 \<Rightarrow> u32 list \<Rightarrow> sha_state \<Rightarrow> sha_state" where
  "rounds f k [] s = s"
| "rounds f k (wi # ws) (a, b, c, d, e) =
     rounds f k ws (left_rotate a 5 + f b c d + e + k + wi, a, left_rotate b 30, c, d)"

definition f_ch :: "u32 \<Rightarrow> u32 \<Rightarrow> u32 \<Rightarrow> u32" where
  "f_ch b c d = (b AND c) OR (NOT b AND d)"

definition f_parity :: "u32 \<Rightarrow> u32 \<Rightarrow> u32 \<Rightarrow> u32" where
  "f_parity b c d = b XOR c XOR d"

definition f_maj :: "u32 \<Rightarrow> u32 \<Rightarrow> u32 \<Rightarrow> u32" where
  "f_maj b c d = (b AND c) OR (b AND d) OR (c AND d)"

definition process_block :: "sha_state \<Rightarrow> byte list \<Rightarrow> sha_state" where
  "process_block h blk =
     (let w16 = block_words blk;
          w = w16 @ expand 64 w16;
          s1 = rounds f_ch 0x5A827999 (take 20 w) h;
          s2 = rounds f_parity 0x6ED9EBA1 (take 20 (drop 20 w)) s1;
          s3 = rounds f_maj 0x8F1BBCDC (take 20 (drop 40 w)) s2;
          s4 = rounds f_parity 0xCA62C1D6 (drop 60 w) s3
      in case (h, s4) of ((h0, h1, h2, h3, h4), (a, b, c, d, e)) \<Rightarrow>
           (h0 + a, h1 + b, h2 + c, h3 + d, h4 + e))"

function process_blocks :: "sha_state \<Rightarrow> byte list \<Rightarrow> sha_state" where
  "process_blocks h bs =
     (if length bs < 64 then h
      else process_blocks (process_block h (take 64 bs)) (drop 64 bs))"
  by pat_completeness auto
termination
  by (relation "measure (\<lambda>(h, bs). length bs)") auto

declare process_blocks.simps [simp del]

definition bit_count_bytes :: "nat \<Rightarrow> byte list" where
  "bit_count_bytes n =
     map (\<lambda>i. ucast (drop_bit (8 * i) (of_nat n * 8 :: 64 word))) [7, 6, 5, 4, 3, 2, 1, 0]"

definition sha1_pad :: "byte list \<Rightarrow> byte list" where
  "sha1_pad bs =
     bs @ [0x80] @ replicate ((119 - length bs mod 64) mod 64) 0 @ bit_count_bytes (length bs)"

text \<open>\<^verbatim>\<open>process_bytes\<close> followed by \<^verbatim>\<open>get_digest\<close>: the five words of the digest.\<close>

definition sha1 :: "string \<Rightarrow> u32 list" where
  "sha1 str =
     (case process_blocks (0x67452301, 0xEFCDAB89, 0x98BADCFE, 0x10325476, 0xC3D2E1F0)
             (sha1_pad (map (\<lambda>c. of_nat (of_char c)) str))
      of (a, b, c, d, e) \<Rightarrow> [a, b, c, d, e])"

subsection \<open>The worker of \<^verbatim>\<open>hasher::hash_impl\<close>\<close>

text \<open>
  \<^verbatim>\<open>std::sprintf(hash_buf_it, "%08x", *dig_it)\<close>: eight lower-case hexadecimal digits,
  the most significant first, padded with zeros.
\<close>

definition hex_digit :: "u32 \<Rightarrow> char" where
  "hex_digit n = ''0123456789abcdef'' ! unat (n AND 0xF)"

definition sprintf_08x :: "u32 \<Rightarrow> string" where
  "sprintf_08x w = map (\<lambda>i. hex_digit (drop_bit (4 * i) w)) [7, 6, 5, 4, 3, 2, 1, 0]"

text \<open>
  The job posted to the pool: hash \<^verbatim>\<open>it->str\<close>, write \<^verbatim>\<open>0x\<close> and the five words
  into \<^verbatim>\<open>hash_buf\<close>, and make a buffer of its first 42 bytes.
\<close>

definition hash_buf :: "string \<Rightarrow> string" where
  "hash_buf str = take 42 (''0x'' @ concat (map sprintf_08x (sha1 str)))"

section \<open>The shared state (server.cpp, struct shared_state)\<close>

subsection \<open>\<^verbatim>\<open>std::map<shared_buffer, shared_buffer, my_cmp>\<close>\<close>

text \<open>
  The map is the list of its entries in iteration order.  Its nodes never move and the
  server never erases one, so an iterator is the key of the node it points to, or
  \<open>End\<close>.
\<close>

type_synonym map_type = "(string \<times> string) list"

datatype const_iterator = At string | End

definition my_cmp :: "string \<Rightarrow> string \<Rightarrow> bool" where
  "my_cmp l r = (l < r)"

text \<open>\<^verbatim>\<open>find\<close>: the first node whose key is not less than \<open>key\<close>, if \<open>key\<close> is not less than it.\<close>

fun lower_bound :: "map_type \<Rightarrow> string \<Rightarrow> map_type" where
  "lower_bound [] key = []"
| "lower_bound ((k, v) # m) key =
     (if my_cmp k key then lower_bound m key else (k, v) # m)"

definition map_find :: "map_type \<Rightarrow> string \<Rightarrow> (string \<times> string) option" where
  "map_find m key =
     (case lower_bound m key of
        [] \<Rightarrow> None
      | (k, v) # _ \<Rightarrow> if my_cmp key k then None else Some (k, v))"

text \<open>\<^verbatim>\<open>emplace\<close>: a new node in its place in the order, unless an equivalent key is there.\<close>

fun map_emplace :: "map_type \<Rightarrow> string \<Rightarrow> string \<Rightarrow> map_type" where
  "map_emplace [] key hash = [(key, hash)]"
| "map_emplace ((k, v) # m) key hash =
     (if my_cmp key k then (key, hash) # (k, v) # m
      else if my_cmp k key then (k, v) # map_emplace m key hash
      else (k, v) # m)"

text \<open>\<^verbatim>\<open>it->second = hash\<close> for the iterator \<open>it\<close> that \<^verbatim>\<open>find\<close> returned at key \<open>k\<close>.\<close>

fun assign_second :: "map_type \<Rightarrow> string \<Rightarrow> string \<Rightarrow> map_type" where
  "assign_second [] k hash = []"
| "assign_second ((k', v) # m) k hash =
     (if k' = k then (k', hash) # m else (k', v) # assign_second m k hash)"

text \<open>The nodes after the node of key \<open>k\<close>; \<open>None\<close> when the map has no such node.\<close>

fun nodes_after :: "map_type \<Rightarrow> string \<Rightarrow> map_type option" where
  "nodes_after [] k = None"
| "nodes_after ((k', v) # m) k = (if k' = k then Some m else nodes_after m k)"

text \<open>
  The representation invariant of the map: the keys of its nodes ascend strictly in the
  order of \<^verbatim>\<open>my_cmp\<close>.
\<close>

definition ordered :: "map_type \<Rightarrow> bool" where
  "ordered m = sorted_wrt my_cmp (map fst m)"

subsection \<open>Operations\<close>

type_synonym update_result = "bool \<times> string option \<times> string option"
type_synonym iter_result = "bool \<times> const_iterator \<times> string option \<times> string option"

definition get_size_impl :: "map_type \<Rightarrow> nat" where
  "get_size_impl m = length m"

definition deref :: "map_type \<Rightarrow> iter_result" where
  "deref rest =
     (case rest of
        (k, v) # _ \<Rightarrow> (False, At k, Some k, Some v)
      | [] \<Rightarrow> (True, End, None, None))"

definition get_first_impl :: "map_type \<Rightarrow> iter_result" where
  "get_first_impl m = deref m"

text \<open>
  \<^verbatim>\<open>std::next\<close> of the end iterator is undefined behaviour: the result is \<open>None\<close>.
\<close>

definition get_next_impl :: "map_type \<Rightarrow> const_iterator \<Rightarrow> iter_result option" where
  "get_next_impl m it =
     (case it of
        End \<Rightarrow> None
      | At k \<Rightarrow> map_option deref (nodes_after m k))"

definition hash_calculated :: "map_type \<Rightarrow> string \<Rightarrow> string \<Rightarrow> map_type \<times> update_result" where
  "hash_calculated m key hash =
     (case map_find m key of
        None \<Rightarrow> (map_emplace m key hash, (True, Some key, Some hash))
      | Some (k, v) \<Rightarrow>
          if v \<noteq> hash then (assign_second m k hash, (True, Some k, Some hash))
          else (m, (False, None, None)))"

text \<open>
  \<^verbatim>\<open>update\<close> posts \<^verbatim>\<open>calculate_hash\<close>, which hands the value to the hasher; the
  hasher's callback posts \<^verbatim>\<open>hash_calculated\<close> with the digest.  A completed update is
  \<^verbatim>\<open>hash_calculated\<close> at the digest of the value.
\<close>

definition update :: "map_type \<Rightarrow> string \<Rightarrow> string \<Rightarrow> map_type \<times> update_result" where
  "update m key val = hash_calculated m key (hash_buf val)"

section \<open>The session (server.cpp, struct session)\<close>

text \<open>\<^verbatim>\<open>sv.find(c)\<close>: the index of the first \<open>c\<close>, \<open>None\<close> for \<^verbatim>\<open>npos\<close>.\<close>

fun sv_find :: "string \<Rightarrow> char \<Rightarrow> nat option" where
  "sv_find [] c = None"
| "sv_find (x # xs) c = (if x = c then Some 0 else map_option Suc (sv_find xs c))"

text \<open>
  \<^verbatim>\<open>async_read_until(m_sock, dynamic_buffer(buf), '\n', ...)\<close>: when the buffer holds the
  delimiter the operation completes at once, with the number of bytes up to and including
  the first delimiter; otherwise it appends what the socket delivers, chunk by chunk, until
  it does.  \<open>chunks\<close> are the chunks still to arrive; when they run out the peer has closed
  the connection and the handler gets an error code (\<open>None\<close>).
\<close>

fun async_read_until :: "string \<Rightarrow> string list \<Rightarrow> nat option \<times> string \<times> string list" where
  "async_read_until buf [] =
     (case sv_find buf LF of
        Some i \<Rightarrow> (Some (Suc i), buf, [])
      | None \<Rightarrow> (None, buf, []))"
| "async_read_until buf (c # cs) =
     (case sv_find buf LF of
        Some i \<Rightarrow> (Some (Suc i), buf, c # cs)
      | None \<Rightarrow> async_read_until (buf @ c) cs)"

text \<open>
  What \<^verbatim>\<open>on_readed\<close> does with a line: it writes it to the error log, or it submits an
  update to the shared state.  The buffer it hands to the next \<^verbatim>\<open>start_read\<close> is
  returned with it.
\<close>

datatype action = Wrong_string string | Update string string

definition on_readed :: "string \<Rightarrow> nat \<Rightarrow> action \<times> string" where
  "on_readed buf rd =
     (let sv = take rd buf in
      case sv_find sv SP of
        None \<Rightarrow> (Wrong_string sv, buf)
      | Some pos \<Rightarrow> (Update (take pos sv) (drop (pos + 1) sv), drop rd buf))"

text \<open>\<^verbatim>\<open>on_updated\<close>: the messages handed to \<^verbatim>\<open>broadcast_cb\<close>.\<close>

definition on_updated :: "update_result \<Rightarrow> string list" where
  "on_updated r =
     (case r of
        (True, Some key, Some hash) \<Rightarrow> [key @ [SP] @ hash @ [LF]]
      | _ \<Rightarrow> [])"

text \<open>
  The read loop: \<^verbatim>\<open>start_read\<close>, then \<^verbatim>\<open>on_readed\<close>, which calls
  \<^verbatim>\<open>start_read\<close> again unless the read failed.  The loop need not end, so it runs on
  fuel: the result is what the session did in its first \<open>n\<close> reads.
\<close>

fun read_loop :: "nat \<Rightarrow> string \<Rightarrow> string list \<Rightarrow> action list" where
  "read_loop 0 buf chunks = []"
| "read_loop (Suc n) buf chunks =
     (case async_read_until buf chunks of
        (None, _, _) \<Rightarrow> []
      | (Some rd, buf', chunks') \<Rightarrow>
          (case on_readed buf' rd of
             (a, buf'') \<Rightarrow> a # read_loop n buf'' chunks'))"

text \<open>The shared state serving the actions of a session, with the messages broadcast.\<close>

fun serve :: "map_type \<Rightarrow> action list \<Rightarrow> map_type \<times> string list" where
  "serve m [] = (m, [])"
| "serve m (Wrong_string sv # as) = serve m as"
| "serve m (Update key val # as) =
     (case update m key val of
        (m', r) \<Rightarrow> (case serve m' as of (m'', msgs) \<Rightarrow> (m'', on_updated r @ msgs)))"

section \<open>Sequences of operations on the shared state\<close>

text \<open>
  The four operations \<^verbatim>\<open>shared_state\<close> exposes, each run on its strand, and what its
  callback receives.
\<close>

datatype operation =
  Op_update string string
| Op_get_size
| Op_get_first
| Op_get_next const_iterator

datatype response =
  Updated update_result
| Size nat
| Iter iter_result
| Undefined_behaviour

fun perform :: "map_type \<Rightarrow> operation \<Rightarrow> map_type \<times> response" where
  "perform m (Op_update key val) = (case update m key val of (m', r) \<Rightarrow> (m', Updated r))"
| "perform m Op_get_size = (m, Size (get_size_impl m))"
| "perform m Op_get_first = (m, Iter (get_first_impl m))"
| "perform m (Op_get_next it) =
     (case get_next_impl m it of
        None \<Rightarrow> (m, Undefined_behaviour)
      | Some r \<Rightarrow> (m, Iter r))"

fun perform_all :: "map_type \<Rightarrow> operation list \<Rightarrow> map_type" where
  "perform_all m [] = m"
| "perform_all m (x # xs) = perform_all (fst (perform m x)) xs"

section \<open>The sync of a new session (server.cpp, session::start)\<close>

text \<open>
  \<^verbatim>\<open>start\<close> asks the shared state for the first entry; \<^verbatim>\<open>on_got_message\<close> writes
  the entry it gets as a line and, from \<^verbatim>\<open>on_get_first_sent\<close>, asks for the next one,
  until the shared state reports the end.  \<open>ec msg\<close> says that the write of \<open>msg\<close>
  fails; then \<^verbatim>\<open>sent\<close> closes the socket and the sync stops.  The map is the same at
  every step: no update runs in between.  The result is the lines written, \<open>None\<close> when
  the fuel runs out or \<^verbatim>\<open>get_next\<close> is undefined.
\<close>

fun on_got_message ::
  "(string \<Rightarrow> bool) \<Rightarrow> nat \<Rightarrow> map_type \<Rightarrow> iter_result \<Rightarrow> string list option" where
  "on_got_message ec 0 m r = None"
| "on_got_message ec (Suc n) m (at_end, it, key, hash) =
     (if at_end then Some []
      else case (key, hash) of
        (Some k, Some h) \<Rightarrow>
          (let str = k @ [SP] @ h @ [LF] in
           if ec str then Some []
           else case get_next_impl m it of
             None \<Rightarrow> None
           | Some r \<Rightarrow> map_option ((#) str) (on_got_message ec n m r))
      | _ \<Rightarrow> None)"

definition start_sync :: "(string \<Rightarrow> bool) \<Rightarrow> nat \<Rightarrow> map_type \<Rightarrow> string list option" where
  "start_sync ec n m = on_got_message ec n m (get_first_impl m)"

section \<open>The hasher's queue (server.cpp, hasher::hash_impl and hasher::on_hashed)\<close>

text \<open>
  \<^verbatim>\<open>m_queue\<close> is a \<^verbatim>\<open>std::list\<close> of \<^verbatim>\<open>queue_item\<close>.  An iterator into it names a
  node, and nodes of a list do not move, so an iterator is a number that no other node
  has: the count of the nodes inserted before it.  \<open>'cb\<close> is the type of the callbacks.
\<close>

record 'cb queue_item =
  str :: string
  hash :: "string option"
  cb :: 'cb

record 'cb hasher =
  m_queue :: "(nat \<times> 'cb queue_item) list"
  inserted :: nat

definition hasher_init :: "'cb hasher" where
  "hasher_init = \<lparr>m_queue = [], inserted = 0\<rparr>"

text \<open>
  \<^verbatim>\<open>hash_impl\<close> appends the item, without a hash, and posts the job of hashing it to
  the pool.  The result is the new state and the iterator the job holds.
\<close>

definition hash_impl :: "string \<Rightarrow> 'cb \<Rightarrow> 'cb hasher \<Rightarrow> 'cb hasher \<times> nat" where
  "hash_impl s c h =
     (h\<lparr>m_queue := m_queue h @ [(inserted h, \<lparr>str = s, hash = None, cb = c\<rparr>)],
        inserted := Suc (inserted h)\<rparr>,
      inserted h)"

text \<open>The job on the pool reads \<^verbatim>\<open>it->str\<close> and hashes it; \<open>None\<close> when no node is at \<open>it\<close>.\<close>

definition pool_job :: "nat \<Rightarrow> 'cb hasher \<Rightarrow> string option" where
  "pool_job it h = map_option (\<lambda>item. hash_buf (str item)) (map_of (m_queue h) it)"

text \<open>
  The loop of \<^verbatim>\<open>on_hashed\<close>: while the item at the head has a hash that is not empty,
  call its callback with the hash and erase the item.  The result is the rest of the queue
  and the calls made, in order.
\<close>

fun drain :: "(nat \<times> 'cb queue_item) list \<Rightarrow> (nat \<times> 'cb queue_item) list \<times> ('cb \<times> string) list" where
  "drain [] = ([], [])"
| "drain ((it, item) # q) =
     (case hash item of
        None \<Rightarrow> ((it, item) # q, [])
      | Some hs \<Rightarrow>
          if hs = [] then ((it, item) # q, [])
          else (case drain q of (q', calls) \<Rightarrow> (q', (cb item, hs) # calls)))"

definition set_hash :: "nat \<Rightarrow> string \<Rightarrow> (nat \<times> 'cb queue_item) list \<Rightarrow> (nat \<times> 'cb queue_item) list" where
  "set_hash it hs q = map (\<lambda>(i, item). if i = it then (i, item\<lparr>hash := Some hs\<rparr>) else (i, item)) q"

definition on_hashed :: "nat \<Rightarrow> string \<Rightarrow> 'cb hasher \<Rightarrow> 'cb hasher \<times> ('cb \<times> string) list" where
  "on_hashed it hs h =
     (let q = set_hash it hs (m_queue h) in
      if (case q of [] \<Rightarrow> False | (i, _) # _ \<Rightarrow> i = it)
      then (case drain q of (q', calls) \<Rightarrow> (h\<lparr>m_queue := q'\<rparr>, calls))
      else (h\<lparr>m_queue := q\<rparr>, []))"







section \<open>The server as strands and a pool\<close>

text \<open>
  The handlers of the server run on strands: the strand of the shared state, the strand
  of the hasher, the strand of the session manager and the strand of each session's socket.
  A strand is a queue: \<^verbatim>\<open>post\<close> appends a handler, and the strand runs the handlers one
  at a time from the front.  The jobs posted to the pool finish in any order.  \<open>sid\<close>
  numbers the sessions; a task carries the number of the session whose callback it holds.
\<close>

datatype store_task =
  Calculate_hash string string nat
| Hash_calculated string string nat

datatype hasher_task =
  Hash_impl string "string \<times> nat"
| On_hashed nat string

text \<open>
  \<open>unread\<close> holds, for each session, its read buffer and the chunks that have still to
  arrive on its socket.  \<open>hasher_out\<close> holds what the callbacks called by the running
  \<^verbatim>\<open>on_hashed\<close> have still to post; other posts to the strand of the shared state may
  come in between.  \<open>written\<close> holds, for each session, the messages given to
  \<^verbatim>\<open>async_write\<close> on its socket, in the order of the calls.  \<open>posted\<close> and \<open>applied\<close>
  record history: the updates posted to the shared state, and the runs of
  \<^verbatim>\<open>hash_calculated\<close> with the session, the key, the hash and the messages broadcast.
\<close>

record server =
  unread :: "nat \<Rightarrow> string \<times> string list"
  posted :: "(nat \<times> string \<times> string) list"
  store_strand :: "store_task list"
  hasher_strand :: "hasher_task list"
  hasher_out :: "store_task list"
  pool :: "nat list"
  m_hasher :: "(string \<times> nat) hasher"
  m_map :: map_type
  applied :: "(nat \<times> string \<times> string \<times> string list) list"
  smgr_strand :: "string list"
  m_list :: "nat list"
  session_strand :: "nat \<Rightarrow> string list"
  written :: "nat \<Rightarrow> string list"

definition server_init :: "(nat \<Rightarrow> string \<times> string list) \<Rightarrow> nat list \<Rightarrow> server" where
  "server_init sent sessions =
     \<lparr>unread = sent, posted = [], store_strand = [], hasher_strand = [], hasher_out = [],
      pool = [], m_hasher = hasher_init, m_map = [], applied = [], smgr_strand = [],
      m_list = sessions, session_strand = (\<lambda>_. []), written = (\<lambda>_. [])\<rparr>"

text \<open>
  What the scheduler may choose to happen next: a session reads a line and posts the update
  (\<^verbatim>\<open>on_readed\<close>, \<^verbatim>\<open>shared_state::update\<close>); a strand runs the handler at its front;
  a callback of the running \<^verbatim>\<open>on_hashed\<close> posts; a job on the pool finishes and posts
  its result.
\<close>

datatype choice =
  Read_line nat
| Run_store
| Run_hasher
| Deliver
| Finish_job nat
| Run_smgr
| Run_session nat

text \<open>
  One \<^verbatim>\<open>start_read\<close> with the \<^verbatim>\<open>on_readed\<close> it leads to: what the session does
  with the line, and the buffer and the chunks left; \<open>None\<close> when the read fails.
\<close>

definition read_one :: "string \<Rightarrow> string list \<Rightarrow> (action \<times> string \<times> string list) option" where
  "read_one buf chunks =
     (case async_read_until buf chunks of
        (None, _, _) \<Rightarrow> None
      | (Some rd, buf', chunks') \<Rightarrow>
          (case on_readed buf' rd of (a, buf'') \<Rightarrow> Some (a, buf'', chunks')))"

definition post_callback :: "(string \<times> nat) \<times> string \<Rightarrow> store_task" where
  "post_callback c = (case c of ((key, sid), hs) \<Rightarrow> Hash_calculated key hs sid)"

fun server_step :: "choice \<Rightarrow> server \<Rightarrow> server option" where
  "server_step (Read_line sid) st =
     (case read_one (fst (unread st sid)) (snd (unread st sid)) of
        None \<Rightarrow> None
      | Some (Wrong_string sv, buf, chunks) \<Rightarrow>
          Some (st\<lparr>unread := (unread st)(sid := (buf, chunks))\<rparr>)
      | Some (Update key val, buf, chunks) \<Rightarrow>
          Some (st\<lparr>unread := (unread st)(sid := (buf, chunks)),
                   posted := posted st @ [(sid, key, val)],
                   store_strand := store_strand st @ [Calculate_hash key val sid]\<rparr>))"
| "server_step Run_store st =
     (case store_strand st of
        [] \<Rightarrow> None
      | Calculate_hash key val sid # ts \<Rightarrow>
          Some (st\<lparr>store_strand := ts,
                   hasher_strand := hasher_strand st @ [Hash_impl val (key, sid)]\<rparr>)
      | Hash_calculated key hs sid # ts \<Rightarrow>
          (case hash_calculated (m_map st) key hs of
             (m', r) \<Rightarrow>
               Some (st\<lparr>store_strand := ts,
                        m_map := m',
                        applied := applied st @ [(sid, key, hs, on_updated r)],
                        smgr_strand := smgr_strand st @ on_updated r\<rparr>)))"
| "server_step Run_hasher st =
     (if hasher_out st \<noteq> [] then None
      else case hasher_strand st of
        [] \<Rightarrow> None
      | Hash_impl val c # ts \<Rightarrow>
          (case hash_impl val c (m_hasher st) of
             (h', it) \<Rightarrow>
               Some (st\<lparr>hasher_strand := ts, m_hasher := h', pool := pool st @ [it]\<rparr>))
      | On_hashed it hs # ts \<Rightarrow>
          (case on_hashed it hs (m_hasher st) of
             (h', calls) \<Rightarrow>
               Some (st\<lparr>hasher_strand := ts, m_hasher := h',
                        hasher_out := map post_callback calls\<rparr>)))"
| "server_step Deliver st =
     (case hasher_out st of
        [] \<Rightarrow> None
      | t # ts \<Rightarrow> Some (st\<lparr>hasher_out := ts, store_strand := store_strand st @ [t]\<rparr>))"
| "server_step (Finish_job it) st =
     (if it \<in> set (pool st)
      then case pool_job it (m_hasher st) of
        None \<Rightarrow> None
      | Some hs \<Rightarrow>
          Some (st\<lparr>pool := remove1 it (pool st),
                   hasher_strand := hasher_strand st @ [On_hashed it hs]\<rparr>)
      else None)"
| "server_step Run_smgr st =
     (case smgr_strand st of
        [] \<Rightarrow> None
      | msg # ms \<Rightarrow>
          Some (st\<lparr>smgr_strand := ms,
                   session_strand :=
                     (\<lambda>sid. if sid \<in> set (m_list st) then session_strand st sid @ [msg]
                            else session_strand st sid)\<rparr>))"
| "server_step (Run_session sid) st =
     (case session_strand st sid of
        [] \<Rightarrow> None
      | msg # ms \<Rightarrow>
          Some (st\<lparr>session_strand := (session_strand st)(sid := ms),
                   written := (written st)(sid := written st sid @ [msg])\<rparr>))"

fun server_run :: "choice list \<Rightarrow> server \<Rightarrow> server option" where
  "server_run [] st = Some st"
| "server_run (c # cs) st =
     (case server_step c st of None \<Rightarrow> None | Some st' \<Rightarrow> server_run cs st')"














section \<open>Evaluating the hash\<close>

lemma expand_numeral:
  "expand (numeral n) w =
     left_rotate (w ! 13 XOR w ! 8 XOR w ! 2 XOR w ! 0) 1
       # expand (pred_numeral n) (tl w @ [left_rotate (w ! 13 XOR w ! 8 XOR w ! 2 XOR w ! 0) 1])"
  by (simp add: numeral_eq_Suc Let_def)

lemma expand_1:
  "expand 1 w = [left_rotate (w ! 13 XOR w ! 8 XOR w ! 2 XOR w ! 0) 1]"
  by (simp add: Let_def)

lemma replicate_numeral:
  "replicate (numeral k) x = x # replicate (pred_numeral k) x"
  by (simp add: numeral_eq_Suc)

lemma mask32: "(x :: u32) AND 0xFFFFFFFF = x"
proof -
  have "(0xFFFFFFFF :: u32) = - 1" by simp
  then show ?thesis by (simp only: and.right_neutral)
qed

lemma left_rotate_norm:
  "left_rotate x n = (push_bit n x XOR drop_bit (32 - n) x) AND 0xFFFFFFFF"
  by (simp only: left_rotate_def mask32)

lemma rounds_norm:
  "rounds f k (wi # ws) (a, b, c, d, e) =
     rounds f k ws
       ((left_rotate a 5 + f b c d + e + k + wi) AND 0xFFFFFFFF, a, left_rotate b 30, c, d)"
  by (simp only: rounds.simps mask32)

lemma process_blocks_one:
  "length bs = 64 \<Longrightarrow> process_blocks h bs = process_block h bs"
  by (simp add: process_blocks.simps [of h bs] process_blocks.simps [of _ "[]"])

lemmas sha1_eval =
  expand_numeral expand_1 left_rotate_norm rounds_norm f_ch_def f_maj_def f_parity_def

lemma sha1_hello_lf:
  "sha1 ''hello\<newline>'' = [0xf572d396, 0xfae92066, 0x28714fb2, 0xce00f72e, 0x94f2258f]"
proof -
  have pad: "sha1_pad (map (\<lambda>c. of_nat (of_char c)) ''hello\<newline>'') =
    [104, 101, 108, 108, 111, 10, 128, 0, 0, 0, 0, 0, 0, 0, 0, 0, 0, 0, 0,
     0, 0, 0, 0, 0, 0, 0, 0, 0, 0, 0, 0, 0, 0, 0, 0, 0, 0, 0, 0, 0, 0, 0, 0,
     0, 0, 0, 0, 0, 0, 0, 0, 0, 0, 0, 0, 0, 0, 0, 0, 0, 0, 0, 0, 48]"
    by (simp add: sha1_pad_def bit_count_bytes_def replicate_numeral)
  show ?thesis
    unfolding sha1_def pad
    apply (subst process_blocks_one)
     apply simp
    unfolding process_block_def Let_def
    by (simp add: sha1_eval del: rounds.simps(2))
qed

lemma sha1_hello:
  "sha1 ''hello'' = [0xaaf4c61d, 0xdcc5e8a2, 0xdabede0f, 0x3b482cd9, 0xaea9434d]"
proof -
  have pad: "sha1_pad (map (\<lambda>c. of_nat (of_char c)) ''hello'') =
    [104, 101, 108, 108, 111, 128, 0, 0, 0, 0, 0, 0, 0, 0, 0, 0, 0, 0, 0,
     0, 0, 0, 0, 0, 0, 0, 0, 0, 0, 0, 0, 0, 0, 0, 0, 0, 0, 0, 0, 0, 0, 0, 0,
     0, 0, 0, 0, 0, 0, 0, 0, 0, 0, 0, 0, 0, 0, 0, 0, 0, 0, 0, 0, 40]"
    by (simp add: sha1_pad_def bit_count_bytes_def replicate_numeral)
  show ?thesis
    unfolding sha1_def pad
    apply (subst process_blocks_one)
     apply simp
    unfolding process_block_def Let_def
    by (simp add: sha1_eval del: rounds.simps(2))
qed

lemma hash_buf_hello_lf:
  "hash_buf ''hello\<newline>'' = ''0xf572d396fae9206628714fb2ce00f72e94f2258f''"
  unfolding hash_buf_def sha1_hello_lf
  by (simp add: sprintf_08x_def hex_digit_def)

lemma hash_buf_hello:
  "hash_buf ''hello'' = ''0xaaf4c61ddcc5e8a2dabede0f3b482cd9aea9434d''"
  unfolding hash_buf_def sha1_hello
  by (simp add: sprintf_08x_def hex_digit_def)

section \<open>The map keeps its order\<close>

lemma ordered_Nil: "ordered []"
  by (simp add: ordered_def)

lemma ordered_Cons:
  "ordered ((k, v) # m) \<longleftrightarrow> (\<forall>k' \<in> fst ` set m. k < k') \<and> ordered m"
  by (auto simp: ordered_def my_cmp_def)

lemma ordered_distinct: "ordered m \<Longrightarrow> distinct (map fst m)"
  using strict_sorted_iff [of "map fst m"]
  by (simp add: ordered_def my_cmp_def [abs_def])

lemma ordered_sorted: "ordered m \<Longrightarrow> sorted (map fst m)"
  using strict_sorted_iff [of "map fst m"]
  by (simp add: ordered_def my_cmp_def [abs_def])

lemma map_of_less_None:
  "ordered m \<Longrightarrow> \<forall>k' \<in> fst ` set m. key < k' \<Longrightarrow> map_of m key = None"
  by (induction m) (auto simp: ordered_Cons)

lemma lower_bound_find:
  "ordered m \<Longrightarrow> map_find m key = map_option (Pair key) (map_of m key)"
proof (induction m)
  case Nil
  then show ?case by (simp add: map_find_def)
next
  case (Cons e m)
  obtain k v where e: "e = (k, v)" by (cases e)
  from Cons.prems have ord: "ordered m" and lt: "\<forall>k' \<in> fst ` set m. k < k'"
    by (simp_all add: e ordered_Cons)
  show ?case
  proof (cases "k < key")
    case True
    then have "map_find (e # m) key = map_find m key"
      by (simp add: e map_find_def my_cmp_def)
    moreover from True have "k \<noteq> key" by simp
    ultimately show ?thesis using Cons.IH [OF ord] by (simp add: e)
  next
    case False
    show ?thesis
    proof (cases "key < k")
      case True
      then have "\<forall>k' \<in> fst ` set m. key < k'" using lt by fastforce
      then have "map_of m key = None" using ord by (rule map_of_less_None [rotated])
      with True False show ?thesis by (simp add: e map_find_def my_cmp_def)
    next
      case False
      with \<open>\<not> k < key\<close> have "k = key" by simp
      then show ?thesis by (simp add: e map_find_def my_cmp_def)
    qed
  qed
qed

lemma set_map_emplace:
  "fst ` set (map_emplace m key h) = insert key (fst ` set m)"
  by (induction m) (force simp: my_cmp_def)+

lemma ordered_map_emplace: "ordered m \<Longrightarrow> ordered (map_emplace m key h)"
proof (induction m)
  case Nil
  then show ?case by (simp add: ordered_def)
next
  case (Cons e m)
  obtain k v where e: "e = (k, v)" by (cases e)
  from Cons.prems have ord: "ordered m" and lt: "\<forall>k' \<in> fst ` set m. k < k'"
    by (simp_all add: e ordered_Cons)
  show ?case
    using Cons.IH [OF ord] ord lt
    by (auto simp: e ordered_Cons my_cmp_def set_map_emplace simp del: map_emplace.simps(2) 
        simp add: map_emplace.simps(2)[of k v m key h])
qed

lemma map_of_map_emplace:
  "map_of m key = None \<Longrightarrow> ordered m \<Longrightarrow> map_of (map_emplace m key h) = (map_of m)(key \<mapsto> h)"
proof (induction m)
  case Nil
  then show ?case by simp
next
  case (Cons e m)
  obtain k v where e: "e = (k, v)" by (cases e)
  from Cons.prems have ord: "ordered m" and ne: "k \<noteq> key" and none: "map_of m key = None"
    by (auto simp: e ordered_Cons split: if_splits)
  show ?case using Cons.IH [OF none ord] ne
    by (auto simp: e my_cmp_def)
qed

lemma fst_assign_second: "map fst (assign_second m k h) = map fst m"
  by (induction m) auto

lemma ordered_assign_second: "ordered m \<Longrightarrow> ordered (assign_second m k h)"
  by (simp add: ordered_def fst_assign_second)

lemma map_of_assign_second:
  "map_of m k = Some v \<Longrightarrow> map_of (assign_second m k h) = (map_of m)(k \<mapsto> h)"
  by (induction m) (auto split: if_splits)

lemma ordered_hash_calculated:
  "ordered m \<Longrightarrow> ordered (fst (hash_calculated m key h))"
  by (auto simp: hash_calculated_def ordered_map_emplace ordered_assign_second
      split: option.splits)

lemma map_of_hash_calculated:
  "ordered m \<Longrightarrow> map_of (fst (hash_calculated m key h)) = (map_of m)(key \<mapsto> h)"
  by (auto simp: hash_calculated_def lower_bound_find map_of_map_emplace map_of_assign_second
      split: option.splits)

section \<open>Reading and splitting a line\<close>

lemma sv_find_None: "sv_find xs c = None \<longleftrightarrow> c \<notin> set xs"
  by (induction xs) auto

lemma sv_find_Some:
  "sv_find xs c = Some i \<Longrightarrow> i < length xs \<and> xs ! i = c \<and> c \<notin> set (take i xs)"
proof (induction xs arbitrary: i)
  case Nil
  then show ?case by simp
next
  case (Cons x xs)
  then show ?case by (cases i) (auto split: if_splits)
qed

lemma sv_find_append:
  "c \<notin> set xs \<Longrightarrow> sv_find (xs @ c # ys) c = Some (length xs)"
  by (induction xs) auto

lemma sv_find_take:
  "sv_find xs c = Some i \<Longrightarrow> i < n \<Longrightarrow> sv_find (take n xs) c = Some i"
proof (induction xs arbitrary: i n)
  case Nil
  then show ?case by simp
next
  case (Cons x xs)
  then show ?case by (cases n) (auto split: if_splits)
qed

lemma async_read_until_Some:
  "async_read_until buf chunks = (Some rd, buf', chunks') \<Longrightarrow>
     \<exists>i. rd = Suc i \<and> sv_find buf' LF = Some i"
  by (induction buf chunks rule: async_read_until.induct) (auto split: option.splits)

lemma async_read_until_ready:
  "sv_find buf LF = Some i \<Longrightarrow> async_read_until buf chunks = (Some (Suc i), buf, chunks)"
  by (cases chunks) auto

lemma async_read_until_line:
  assumes "SP \<notin> set key" "LF \<notin> set key" "LF \<notin> set val"
  shows "async_read_until (key @ [SP] @ val @ [LF] @ rest) chunks =
           (Some (length key + length val + 2), key @ [SP] @ val @ [LF] @ rest, chunks)"
proof -
  have neq: "SP \<noteq> LF" by (simp add: SP_def LF_def)
  have "LF \<notin> set (key @ [SP] @ val)" using assms neq by auto
  then have "sv_find ((key @ [SP] @ val) @ LF # rest) LF = Some (length (key @ [SP] @ val))"
    by (rule sv_find_append)
  then show ?thesis
    using async_read_until_ready
      [of "key @ [SP] @ val @ [LF] @ rest" "length key + length val + 1" chunks]
    by simp
qed

lemma on_readed_line:
  assumes "SP \<notin> set key"
  shows "on_readed (key @ [SP] @ val @ [LF] @ rest) (length key + length val + 2) =
           (Update key (val @ [LF]), rest)"
proof -
  have tk: "take (length key + length val + 2) (key @ [SP] @ val @ [LF] @ rest) =
              key @ SP # val @ [LF]"
    by simp
  have f: "sv_find (key @ SP # val @ [LF]) SP = Some (length key)"
    using assms by (rule sv_find_append)
  show ?thesis
    unfolding on_readed_def Let_def tk f by simp
qed

section \<open>The format of a hash\<close>

lemma hex_digit_range: "hex_digit n \<in> set ''0123456789abcdef''"
proof -
  have "unat (n AND 0xF) \<le> unat (0xF :: u32)"
    by (rule word_and_le1 [THEN word_le_nat_alt [THEN iffD1]])
  then have "unat (n AND 0xF) < length ''0123456789abcdef''" by simp
  then show ?thesis unfolding hex_digit_def by (rule nth_mem)
qed

lemma sprintf_08x_format:
  "length (sprintf_08x w) = 8 \<and> set (sprintf_08x w) \<subseteq> set ''0123456789abcdef''"
  using hex_digit_range by (auto simp: sprintf_08x_def)

lemma length_sha1: "length (sha1 s) = 5"
  by (simp add: sha1_def split: prod.splits)

lemma hash_buf_format:
  "length (hash_buf s) = 42 \<and> take 2 (hash_buf s) = ''0x'' \<and>
   set (drop 2 (hash_buf s)) \<subseteq> set ''0123456789abcdef''"
proof -
  obtain a b c d e where s: "sha1 s = [a, b, c, d, e]"
    unfolding sha1_def
    by (cases "process_blocks (0x67452301, 0xEFCDAB89, 0x98BADCFE, 0x10325476, 0xC3D2E1F0)
                 (sha1_pad (map (\<lambda>c. of_nat (of_char c)) s))") simp
  have len: "length (concat (map sprintf_08x (sha1 s))) = 40"
    by (simp add: s sprintf_08x_format)
  have "set (concat (map sprintf_08x (sha1 s))) \<subseteq> set ''0123456789abcdef''"
    using sprintf_08x_format by (auto simp: s simp del: set_simps)
  with len show ?thesis by (simp add: hash_buf_def)
qed

lemma hash_buf_eq: "hash_buf s = ''0x'' @ concat (map sprintf_08x (sha1 s))"
proof -
  obtain a b c d e where s: "sha1 s = [a, b, c, d, e]"
    unfolding sha1_def
    by (cases "process_blocks (0x67452301, 0xEFCDAB89, 0x98BADCFE, 0x10325476, 0xC3D2E1F0)
                 (sha1_pad (map (\<lambda>c. of_nat (of_char c)) s))") simp
  show ?thesis by (simp add: hash_buf_def s sprintf_08x_format)
qed

section \<open>What an accepted line stores\<close>

lemma sv_find_stream:
  assumes f: "sv_find buf LF = Some i"
    and s: "buf @ tail = line @ LF # rest"
    and l: "LF \<notin> set line"
  shows "i = length line \<and> buf = line @ LF # drop (Suc i) buf \<and> drop (Suc i) buf @ tail = rest"
proof -
  from sv_find_Some [OF f] have i: "i < length buf" "buf ! i = LF" "LF \<notin> set (take i buf)"
    by blast+
  have at: "(buf @ tail) ! j = buf ! j" if "j < length buf" for j
    using that by (simp add: nth_append)
  have "\<not> i < length line"
  proof
    assume a: "i < length line"
    then have "(line @ LF # rest) ! i = line ! i" by (simp add: nth_append)
    with s at [OF i(1)] i(2) have "line ! i = LF" by simp
    with a l show False by (metis nth_mem)
  qed
  moreover have "\<not> length line < i"
  proof
    assume a: "length line < i"
    with i(1) have b: "length line < length buf" by simp
    from s at [OF b] have "buf ! length line = LF" by (simp add: nth_append)
    moreover from a b have "buf ! length line \<in> set (take i buf)"
      by (metis in_set_conv_nth length_take min_less_iff_conj nth_take)
    ultimately show False using i(3) by simp
  qed
  ultimately have eq: "i = length line" by simp
  have "take (Suc i) buf = take (Suc i) (buf @ tail)" using i(1) by simp
  also have "\<dots> = line @ [LF]" by (simp add: s eq)
  finally have tk: "take (Suc i) buf = line @ [LF]" .
  have b: "buf = line @ LF # drop (Suc i) buf"
    using append_take_drop_id [of "Suc i" buf] by (simp add: tk)
  have "drop (Suc i) (buf @ tail) = drop (Suc i) buf @ tail" using i(1) by simp
  moreover have "drop (Suc i) (buf @ tail) = rest" by (simp add: s eq)
  ultimately show ?thesis using eq b by simp
qed

lemma async_read_until_stream:
  assumes "buf @ concat chunks = line @ LF # rest" and "LF \<notin> set line"
  shows "\<exists>r chunks'. async_read_until buf chunks = (Some (Suc (length line)), line @ LF # r, chunks') \<and>
           r @ concat chunks' = rest"
  using assms(1)
proof (induction chunks arbitrary: buf)
  case Nil
  show ?case
  proof (cases "sv_find buf LF")
    case None
    then have "LF \<notin> set buf" by (simp add: sv_find_None)
    with Nil show ?thesis by simp
  next
    case (Some i)
    from sv_find_stream [OF Some Nil assms(2)] Some show ?thesis
      by (metis async_read_until_ready)
  qed
next
  case (Cons c cs)
  show ?case
  proof (cases "sv_find buf LF")
    case None
    from Cons.prems have "(buf @ c) @ concat cs = line @ LF # rest" by simp
    from Cons.IH [OF this] None show ?thesis by simp
  next
    case (Some i)
    from sv_find_stream [OF Some Cons.prems assms(2)] Some show ?thesis
      by (metis async_read_until_ready)
  qed
qed

lemma read_loop_accepts:
  assumes "SP \<notin> set key" and "LF \<notin> set key" and "LF \<notin> set val"
    and "buf @ concat chunks = key @ [SP] @ val @ [LF] @ rest"
  shows "\<exists>buf' chunks'. read_loop (Suc n) buf chunks = Update key (val @ [LF]) # read_loop n buf' chunks' \<and>
           buf' @ concat chunks' = rest"
proof -
  have neq: "SP \<noteq> LF" by (simp add: SP_def LF_def)
  have l: "LF \<notin> set (key @ [SP] @ val)" using assms(2,3) neq by auto
  from assms(4) have "buf @ concat chunks = (key @ [SP] @ val) @ LF # rest" by simp
  from async_read_until_stream [OF this l] obtain r chunks' where
    a: "async_read_until buf chunks = (Some (Suc (length (key @ [SP] @ val))), (key @ [SP] @ val) @ LF # r, chunks')"
    and r: "r @ concat chunks' = rest"
    by blast
  have o: "on_readed ((key @ [SP] @ val) @ LF # r) (Suc (length (key @ [SP] @ val))) =
      (Update key (val @ [LF]), r)"
    using on_readed_line [OF assms(1), of val r] by simp
  have "read_loop (Suc n) buf chunks = Update key (val @ [LF]) # read_loop n r chunks'"
    unfolding read_loop.simps a using o by simp
  with r show ?thesis by blast
qed

lemma serve_one_find:
  assumes "ordered m"
  shows "map_find (fst (serve m [Update key val])) key = Some (key, hash_buf val)"
proof -
  have m': "fst (serve m [Update key val]) = fst (hash_calculated m key (hash_buf val))"
    by (simp add: update_def split: prod.splits)
  have "ordered (fst (hash_calculated m key (hash_buf val)))"
    using assms by (rule ordered_hash_calculated)
  then show ?thesis
    unfolding m' by (simp add: lower_bound_find map_of_hash_calculated [OF assms])
qed

section \<open>Change detection\<close>

lemma update_absent:
  assumes "ordered m" and "map_find m key = None"
  shows "snd (update m key val) = (True, Some key, Some (hash_buf val))"
  using assms by (simp add: update_def hash_calculated_def)

lemma update_different:
  assumes "ordered m" and "map_find m key = Some (k, v)" and "v \<noteq> hash_buf val"
  shows "snd (update m key val) = (True, Some key, Some (hash_buf val))"
proof -
  from assms(1,2) have "k = key" by (auto simp: lower_bound_find)
  with assms(2,3) show ?thesis by (simp add: update_def hash_calculated_def)
qed

lemma update_same:
  assumes "map_find m key = Some (k, hash_buf val)"
  shows "update m key val = (m, (False, None, None))"
  using assms by (simp add: update_def hash_calculated_def)

lemma update_stores:
  assumes "ordered m"
  shows "map_find (fst (update m key val)) key = Some (key, hash_buf val)"
proof -
  have "ordered (fst (hash_calculated m key (hash_buf val)))"
    using assms by (rule ordered_hash_calculated)
  then show ?thesis
    by (simp add: update_def lower_bound_find map_of_hash_calculated [OF assms])
qed

text \<open>
  C2.  \<open>update(K, V)\<close> yields \<open>(true, K, h)\<close>, with \<open>h\<close> the hash computed for \<open>V\<close>, and
  stores \<open>h\<close> as the entry of \<open>K\<close>, exactly when \<^verbatim>\<open>find\<close> reaches the end of the map or
  the hash it finds differs from \<open>h\<close>; otherwise it yields \<open>(false, null, null)\<close> and leaves
  the map as it is.  The first update of a key reports a change.
\<close>

theorem update_changes_iff_absent_or_different:
  assumes "ordered m"
  shows "snd (update m key val) =
           (if map_find m key = None \<or> (\<exists>v. map_find m key = Some (key, v) \<and> v \<noteq> hash_buf val)
            then (True, Some key, Some (hash_buf val))
            else (False, None, None)) \<and>
         (if map_find m key = None \<or> (\<exists>v. map_find m key = Some (key, v) \<and> v \<noteq> hash_buf val)
          then map_find (fst (update m key val)) key = Some (key, hash_buf val)
          else fst (update m key val) = m) \<and>
         (map_find m key = None \<longrightarrow> fst (snd (update m key val)))"
proof (cases "map_find m key")
  case None
  then show ?thesis
    using update_absent [OF assms None, of val] update_stores [OF assms, of key val]
    by simp
next
  case (Some e)
  obtain k v where e: "e = (k, v)" by (cases e)
  from assms Some have k: "k = key" by (auto simp: e lower_bound_find)
  show ?thesis
  proof (cases "v = hash_buf val")
    case True
    with Some e k show ?thesis using update_same [of m key key val] by simp
  next
    case False
    with Some e k show ?thesis
      using update_different [OF assms, of key key v val] update_stores [OF assms, of key val]
      by simp
  qed
qed

theorem update_changes_iff_absent_or_different_witness:
  "ordered [] \<and> map_find [] ''k'' = None \<and>
   snd (update [] ''k'' ''v'') = (True, Some ''k'', Some (hash_buf ''v'')) \<and>
   map_find (fst (update [] ''k'' ''v'')) ''k'' = Some (''k'', hash_buf ''v'') \<and>
   ordered [(''k'', hash_buf ''v'')] \<and>
   update [(''k'', hash_buf ''v'')] ''k'' ''v'' = ([(''k'', hash_buf ''v'')], (False, None, None))"
proof -
  have o1: "ordered []" and o2: "ordered [(''k'', hash_buf ''v'')]"
    by (simp_all add: ordered_def)
  have f1: "map_find [] ''k'' = None"
    and f2: "map_find [(''k'', hash_buf ''v'')] ''k'' = Some (''k'', hash_buf ''v'')"
    by (simp_all add: map_find_def my_cmp_def)
  show ?thesis
    using o1 o2 f1 f2
      update_changes_iff_absent_or_different [OF o1, of "''k''" "''v''"]
      update_changes_iff_absent_or_different [OF o2, of "''k''" "''v''"]
    by (simp add: prod_eq_iff)
qed

section \<open>The frame of an update\<close>

lemma map_of_update:
  "ordered m \<Longrightarrow> map_of (fst (update m key val)) = (map_of m)(key \<mapsto> hash_buf val)"
  by (simp add: update_def map_of_hash_calculated)

lemma ordered_update: "ordered m \<Longrightarrow> ordered (fst (update m key val))"
  by (simp add: update_def ordered_hash_calculated)

text \<open>
  C10.  \<open>update(K, V)\<close> changes at most the entry of \<open>K\<close>: for another key, what
  \<^verbatim>\<open>find\<close> returns (whether there is an entry, and its hash) is the same before and
  after; and when the update reports no change, the map is the one it was.
\<close>

theorem update_frame:
  assumes "ordered m"
  shows "(\<forall>key'. key' \<noteq> key \<longrightarrow> map_find (fst (update m key val)) key' = map_find m key') \<and>
         (\<not> fst (snd (update m key val)) \<longrightarrow> fst (update m key val) = m)"
proof -
  have "map_find (fst (update m key val)) key' = map_find m key'" if "key' \<noteq> key" for key'
    using that assms ordered_update [OF assms, of key val]
    by (simp add: lower_bound_find map_of_update)
  moreover have "fst (update m key val) = m" if "\<not> fst (snd (update m key val))"
    using that by (auto simp: update_def hash_calculated_def split: option.splits if_splits)
  ultimately show ?thesis by blast
qed

theorem update_frame_witness:
  "ordered [(''a'', ''1''), (''k'', hash_buf ''v'')] \<and>
   ''a'' \<noteq> ''k'' \<and>
   map_find (fst (update [(''a'', ''1''), (''k'', hash_buf ''v'')] ''k'' ''w'')) ''a'' =
     Some (''a'', ''1'') \<and>
   \<not> fst (snd (update [(''a'', ''1''), (''k'', hash_buf ''v'')] ''k'' ''v'')) \<and>
   fst (update [(''a'', ''1''), (''k'', hash_buf ''v'')] ''k'' ''v'') =
     [(''a'', ''1''), (''k'', hash_buf ''v'')]"
proof -
  have o: "ordered [(''a'', ''1''), (''k'', hash_buf ''v'')]"
    by (simp add: ordered_def my_cmp_def)
  have f: "map_find [(''a'', ''1''), (''k'', hash_buf ''v'')] ''a'' = Some (''a'', ''1'')"
    by (simp add: map_find_def my_cmp_def)
  have n: "\<not> fst (snd (update [(''a'', ''1''), (''k'', hash_buf ''v'')] ''k'' ''v''))"
    by (simp add: update_def hash_calculated_def map_find_def my_cmp_def)
  show ?thesis
    using o f n update_frame [OF o, of "''k''" "''w''"] update_frame [OF o, of "''k''" "''v''"]
    by simp
qed

section \<open>Entries are never removed\<close>

lemma fst_perform:
  "fst (perform m x) = (case x of Op_update key val \<Rightarrow> fst (update m key val) | _ \<Rightarrow> m)"
  by (cases x) (simp_all split: prod.splits option.splits)

lemma ordered_perform: "ordered m \<Longrightarrow> ordered (fst (perform m x))"
  unfolding fst_perform by (simp add: ordered_update split: operation.splits)

lemma keys_update:
  "ordered m \<Longrightarrow> fst ` set (fst (update m key val)) = insert key (fst ` set m)"
  using map_of_update [of m key val]
  by (metis dom_fun_upd dom_map_of_conv_image_fst option.distinct(1))

lemma keys_perform: "ordered m \<Longrightarrow> fst ` set m \<subseteq> fst ` set (fst (perform m x))"
  unfolding fst_perform by (auto simp: keys_update split: operation.splits)

lemma ordered_perform_all: "ordered m \<Longrightarrow> ordered (perform_all m xs)"
  by (induction xs arbitrary: m) (auto simp: ordered_perform)

lemma keys_perform_all: "ordered m \<Longrightarrow> fst ` set m \<subseteq> fst ` set (perform_all m xs)"
proof (induction xs arbitrary: m)
  case Nil
  then show ?case by simp
next
  case (Cons x xs)
  have "fst ` set m \<subseteq> fst ` set (fst (perform m x))"
    using Cons.prems by (rule keys_perform)
  also have "\<dots> \<subseteq> fst ` set (perform_all (fst (perform m x)) xs)"
    using Cons.prems by (intro Cons.IH ordered_perform)
  finally show ?case by simp
qed

lemma perform_all_append: "perform_all m (xs @ ys) = perform_all (perform_all m xs) ys"
  by (induction xs arbitrary: m) auto

text \<open>
  C6.  In every state the shared state reaches from the empty map, by any sequence of
  updates, size queries and iteration steps, no two entries have the same key; and every
  key that has an entry still has one after any further operations: the set of keys only
  grows.
\<close>

theorem one_entry_per_key_and_keys_only_grow:
  "distinct (map fst (perform_all [] xs)) \<and>
   fst ` set (perform_all [] xs) \<subseteq> fst ` set (perform_all [] (xs @ ys))"
proof -
  have o: "ordered (perform_all [] xs)"
    by (rule ordered_perform_all) (rule ordered_Nil)
  then show ?thesis
    by (simp add: ordered_distinct perform_all_append keys_perform_all)
qed

section \<open>Different digests give different hashes\<close>

lemma hex_digit_inj:
  assumes "hex_digit a = hex_digit b"
  shows "a AND 0xF = b AND 0xF"
proof -
  have d: "distinct ''0123456789abcdef''" by simp
  have la: "unat (a AND 0xF) < length ''0123456789abcdef''"
    using word_and_le1 [of a "0xF", THEN word_le_nat_alt [THEN iffD1]] by simp
  have lb: "unat (b AND 0xF) < length ''0123456789abcdef''"
    using word_and_le1 [of b "0xF", THEN word_le_nat_alt [THEN iffD1]] by simp
  from assms have "unat (a AND 0xF) = unat (b AND 0xF)"
    unfolding hex_digit_def using nth_eq_iff_index_eq [OF d la lb] by simp
  then show ?thesis by (simp only: word_unat_eq_iff)
qed

lemma bit_low_nibble:
  assumes "j < 4"
  shows "bit (drop_bit (4 * i) w AND (0xF :: u32)) j = bit w (4 * i + j)"
proof -
  from assms have "j = 0 \<or> j = 1 \<or> j = 2 \<or> j = 3" by arith
  then have "bit (0xF :: u32) j" by (auto simp: numeral_2_eq_2 numeral_3_eq_3)
  then show ?thesis by (simp add: bit_and_iff bit_drop_bit_eq ac_simps)
qed

lemma sprintf_08x_inj:
  assumes "sprintf_08x a = sprintf_08x b"
  shows "a = b"
proof (rule bit_eqI)
  fix n
  assume "possible_bit TYPE(u32) n"
  then have n: "n < 32" by (simp add: possible_bit_def)
  define i where "i = n div 4"
  define j where "j = n mod 4"
  have j: "j < 4" and i: "i \<in> set [7, 6, 5, 4, 3, 2, 1, 0]" and nij: "n = 4 * i + j"
    using n by (auto simp: i_def j_def)
  from assms have "\<forall>i \<in> set [7, 6, 5, 4, 3, 2, 1, 0].
      hex_digit (drop_bit (4 * i) a) = hex_digit (drop_bit (4 * i) b)"
    unfolding sprintf_08x_def by (simp only: map_eq_conv)
  with i have "hex_digit (drop_bit (4 * i) a) = hex_digit (drop_bit (4 * i) b)" by blast
  then have "drop_bit (4 * i) a AND 0xF = drop_bit (4 * i) b AND 0xF"
    by (rule hex_digit_inj)
  then have "bit (drop_bit (4 * i) a AND 0xF) j = bit (drop_bit (4 * i) b AND 0xF) j"
    by simp
  then show "bit a n = bit b n"
    unfolding nij bit_low_nibble [OF j] .
qed

lemma hash_buf_inj:
  assumes "hash_buf s = hash_buf t"
  shows "sha1 s = sha1 t"
proof -
  obtain a b c d e where s: "sha1 s = [a, b, c, d, e]"
    using length_sha1 [of s] by (auto simp: length_Suc_conv eval_nat_numeral)
  obtain a' b' c' d' e' where t: "sha1 t = [a', b', c', d', e']"
    using length_sha1 [of t] by (auto simp: length_Suc_conv eval_nat_numeral)
  have len: "\<And>w. length (sprintf_08x w) = 8" by (simp add: sprintf_08x_format)
  from assms have "sprintf_08x a @ sprintf_08x b @ sprintf_08x c @ sprintf_08x d @ sprintf_08x e =
      sprintf_08x a' @ sprintf_08x b' @ sprintf_08x c' @ sprintf_08x d' @ sprintf_08x e'"
    by (simp add: hash_buf_eq s t)
  then have "sprintf_08x a = sprintf_08x a' \<and> sprintf_08x b = sprintf_08x b' \<and>
      sprintf_08x c = sprintf_08x c' \<and> sprintf_08x d = sprintf_08x d' \<and>
      sprintf_08x e = sprintf_08x e'"
    by (simp add: len)
  then show ?thesis by (simp add: s t sprintf_08x_inj)
qed

section \<open>Broadcasts of repeated updates\<close>

lemma map_find_update_other:
  assumes "ordered m" and "key' \<noteq> key"
  shows "map_find (fst (update m key val)) key' = map_find m key'"
  using assms ordered_update [OF assms(1), of key val]
  by (simp add: lower_bound_find map_of_update)

lemma serve_Update:
  "serve m (Update key val # as) =
     (fst (serve (fst (update m key val)) as),
      on_updated (snd (update m key val)) @ snd (serve (fst (update m key val)) as))"
  by (simp split: prod.splits)

lemma serve_replicate_same:
  assumes "map_find m key = Some (key, hash_buf val)"
  shows "serve m (replicate n (Update key val)) = (m, [])"
  using assms by (induction n) (simp_all add: update_same on_updated_def)

lemma length_on_updated:
  "length (on_updated r) = (case r of (True, Some k, Some h) \<Rightarrow> 1 | _ \<Rightarrow> 0)"
  by (simp add: on_updated_def split: prod.splits bool.splits option.splits)

lemma serve_first_update:
  assumes "ordered m" and "map_find m key \<noteq> Some (key, hash_buf val)"
  shows "length (on_updated (snd (update m key val))) = 1"
proof -
  from assms have "map_find m key = None \<or>
      (\<exists>v. map_find m key = Some (key, v) \<and> v \<noteq> hash_buf val)"
    by (cases "map_find m key") (auto simp: lower_bound_find)
  then have "snd (update m key val) = (True, Some key, Some (hash_buf val))"
    using assms(1) update_absent update_different by blast
  then show ?thesis by (simp add: on_updated_def)
qed

text \<open>
  C4, as amended.  When the key is absent, or holds a hash other than that of \<open>V\<close>, the
  same update \<open>(K, V)\<close> submitted \<open>N \<ge> 1\<close> times in sequence produces exactly one broadcast
  (and none when the map already holds the hash of \<open>V\<close> for \<open>K\<close>).  \<open>(K, V1)\<close> followed by
  \<open>(K, V2)\<close>, with different SHA-1 digests, produces exactly two broadcasts when the key is
  absent or holds a hash other than that of \<open>V1\<close> (and one when the map already holds the
  hash of \<open>V1\<close>).
\<close>

theorem repeated_update_broadcasts_once:
  assumes "ordered m"
  shows "length (snd (serve m (replicate (Suc n) (Update K V)))) =
           (if map_find m K = Some (K, hash_buf V) then 0 else 1) \<and>
         (sha1 V1 \<noteq> sha1 V2 \<longrightarrow>
            length (snd (serve m [Update K V1, Update K V2])) =
              (if map_find m K = Some (K, hash_buf V1) then 1 else 2))"
proof -
  have stored: "map_find (fst (update m K V)) K = Some (K, hash_buf V)" for V
    using assms by (rule update_stores)
  have one: "length (snd (serve m (replicate (Suc n) (Update K V)))) =
           (if map_find m K = Some (K, hash_buf V) then 0 else 1)"
  proof (cases "map_find m K = Some (K, hash_buf V)")
    case True
    then show ?thesis by (simp only: serve_replicate_same) simp
  next
    case False
    have "length (on_updated (snd (update m K V))) = 1"
      using assms False by (rule serve_first_update)
    with False show ?thesis
      by (simp add: serve_Update serve_replicate_same [OF stored] del: serve.simps)
  qed
  have two: "length (snd (serve m [Update K V1, Update K V2])) =
              (if map_find m K = Some (K, hash_buf V1) then 1 else 2)"
    if ne: "sha1 V1 \<noteq> sha1 V2"
  proof -
    from ne have h: "hash_buf V1 \<noteq> hash_buf V2" using hash_buf_inj by blast
    have second: "length (on_updated (snd (update m' K V2))) = 1"
      if "ordered m'" "map_find m' K = Some (K, hash_buf V1)" for m'
      using that h by (intro serve_first_update) auto
    show ?thesis
    proof (cases "map_find m K = Some (K, hash_buf V1)")
      case True
      then have "update m K V1 = (m, (False, None, None))" by (rule update_same)
      with True second [OF assms True] show ?thesis
        by (simp add: serve_Update on_updated_def del: serve.simps(3)) 
    next
      case False
      have "length (on_updated (snd (update m K V1))) = 1"
        using assms False by (rule serve_first_update)
      moreover have "length (on_updated (snd (update (fst (update m K V1)) K V2))) = 1"
        using ordered_update [OF assms] stored by (rule second)
      ultimately show ?thesis using False
        by (simp add: serve_Update del: serve.simps(3))
    qed
  qed
  from one two show ?thesis by blast
qed

theorem repeated_update_broadcasts_once_witness:
  "ordered [] \<and> length (snd (serve [] (replicate (Suc 2) (Update ''k'' ''v'')))) = 1 \<and>
   sha1 ''hello'' \<noteq> sha1 ''hello\<newline>'' \<and>
   length (snd (serve [] [Update ''k'' ''hello'', Update ''k'' ''hello\<newline>''])) = 2"
proof -
  have o: "ordered []" by (rule ordered_Nil)
  have f: "map_find [] ''k'' = None" by (simp add: map_find_def)
  have ne: "sha1 ''hello'' \<noteq> sha1 ''hello\<newline>''"
    unfolding sha1_hello sha1_hello_lf by simp
  show ?thesis
    using o f ne
      repeated_update_broadcasts_once [OF o, of 2 "''k''" "''v''" "''hello''" "''hello\<newline>''"]
    by simp
qed

text \<open>
  C4 as stated fails when the map already holds the hash: after \<open>(k, v)\<close> and an update
  of another key, submitting \<open>(k, v)\<close> twice in sequence produces no broadcast.
\<close>

theorem repeated_update_counterexample:
  "snd (serve (fst (serve [] [Update ''k'' ''v'', Update ''j'' ''w'']))
         (replicate 2 (Update ''k'' ''v''))) = []"
proof -
  have o: "ordered (fst (update [] ''k'' ''v''))"
    by (rule ordered_update) (rule ordered_Nil)
  have "map_find (fst (update (fst (update [] ''k'' ''v'')) ''j'' ''w'')) ''k'' =
      map_find (fst (update [] ''k'' ''v'')) ''k''"
    by (rule map_find_update_other [OF o]) simp
  also have "\<dots> = Some (''k'', hash_buf ''v'')"
    by (rule update_stores) (rule ordered_Nil)
  finally have "map_find (fst (serve [] [Update ''k'' ''v'', Update ''j'' ''w''])) ''k'' =
      Some (''k'', hash_buf ''v'')"
    by (simp add: serve_Update del: serve.simps(3))
  then show ?thesis by (simp only: serve_replicate_same) simp
qed

section \<open>A line without a space\<close>

lemma on_readed_wrong:
  assumes "sv_find (take rd buf) SP = None"
  shows "on_readed buf rd = (Wrong_string (take rd buf), buf)"
  using assms by (simp add: on_readed_def)

lemma read_loop_stuck:
  assumes "sv_find buf LF = Some i" and "SP \<notin> set (take (Suc i) buf)"
  shows "read_loop n buf chunks = replicate n (Wrong_string (take (Suc i) buf))"
proof (induction n)
  case 0
  show ?case by simp
next
  case (Suc n)
  have r: "async_read_until buf chunks = (Some (Suc i), buf, chunks)"
    using assms(1) by (rule async_read_until_ready)
  have w: "on_readed buf (Suc i) = (Wrong_string (take (Suc i) buf), buf)"
    using assms(2) by (intro on_readed_wrong) (simp add: sv_find_None)
  show ?case
    unfolding read_loop.simps r using w Suc.IH by simp
qed

text \<open>
  C7.  The session that receives \<open>no_space_here\<close> and then \<open>ok v\<close> logs the first line at
  every read, for as many reads as it is given: the line stays in the buffer, so the
  update of \<open>ok\<close> is never submitted and nothing is ever broadcast.
\<close>

theorem line_without_space_is_read_again:
  "read_loop n [] [''no_space_here\<newline>ok v\<newline>''] =
     replicate n (Wrong_string ''no_space_here\<newline>'') \<and>
   Update ''ok'' ''v\<newline>'' \<notin> set (read_loop n [] [''no_space_here\<newline>ok v\<newline>'']) \<and>
   serve [] (read_loop n [] [''no_space_here\<newline>ok v\<newline>'']) = ([], []) \<and>
   read_loop 2 [] [''ok v\<newline>ok w\<newline>''] = [Update ''ok'' ''v\<newline>'', Update ''ok'' ''w\<newline>'']"
proof -
  let ?buf = "''no_space_here\<newline>ok v\<newline>''"
  have f: "sv_find ?buf LF = Some 13" by (simp add: LF_def)
  have s: "SP \<notin> set (take (Suc 13) ?buf)" by (simp add: SP_def)
  have stuck: "read_loop k ?buf [] = replicate k (Wrong_string ''no_space_here\<newline>'')" for k
    using read_loop_stuck [OF f s, of k "[]"] by simp
  have r: "async_read_until [] [?buf] = (Some 14, ?buf, [])"
    using async_read_until_ready [OF f, of "[]"] by simp
  have w: "on_readed ?buf 14 = (Wrong_string ''no_space_here\<newline>'', ?buf)"
    using on_readed_wrong [of 14 ?buf] by (simp add: SP_def)
  have 1: "read_loop n [] [?buf] = replicate n (Wrong_string ''no_space_here\<newline>'')"
  proof (cases n)
    case 0
    then show ?thesis by simp
  next
    case (Suc k)
    show ?thesis unfolding Suc read_loop.simps r using w stuck [of k] by simp
  qed
  have 3: "serve [] (replicate k (Wrong_string x)) = ([], [])" for k x
    by (induction k) simp_all
  have 4: "read_loop 2 [] [''ok v\<newline>ok w\<newline>''] = [Update ''ok'' ''v\<newline>'', Update ''ok'' ''w\<newline>'']"
    by (simp add: numeral_2_eq_2 LF_def SP_def on_readed_def)
  show ?thesis unfolding 1 using 3 4 by simp
qed

section \<open>The keys a session submits\<close>

lemma on_readed_key:
  assumes "async_read_until buf chunks = (Some rd, buf', chunks')"
    and "on_readed buf' rd = (Update key val, buf'')"
  shows "SP \<notin> set key \<and> LF \<notin> set key"
proof -
  from assms(1) obtain i where rd: "rd = Suc i" and lf: "sv_find buf' LF = Some i"
    using async_read_until_Some by blast
  from assms(2) obtain pos where pos: "sv_find (take rd buf') SP = Some pos"
    and key: "key = take pos (take rd buf')"
    by (auto simp: on_readed_def Let_def split: option.splits)
  from sv_find_Some [OF pos] have p: "pos < length (take rd buf')"
    "take rd buf' ! pos = SP" "SP \<notin> set (take pos (take rd buf'))"
    by blast+
  from sv_find_Some [OF lf] have l: "i < length buf'" "buf' ! i = LF" "LF \<notin> set (take i buf')"
    by blast+
  have "pos \<noteq> i"
  proof
    assume "pos = i"
    with p(2) l(2) rd have "SP = LF" by simp
    then show False by (simp add: SP_def LF_def)
  qed
  with p(1) rd have "pos < i" by simp
  then have "key = take pos (take i buf')" by (simp add: key rd min_def)
  then have "set key \<subseteq> set (take i buf')" by (simp only: set_take_subset)
  with l(3) p(3) key show ?thesis by blast
qed

lemma read_loop_keys:
  "Update key val \<in> set (read_loop n buf chunks) \<Longrightarrow> SP \<notin> set key \<and> LF \<notin> set key"
proof (induction n arbitrary: buf chunks)
  case 0
  then show ?case by simp
next
  case (Suc n)
  obtain r buf' chunks' where a: "async_read_until buf chunks = (r, buf', chunks')"
    by (cases "async_read_until buf chunks")
  show ?case
  proof (cases r)
    case None
    with Suc.prems a show ?thesis by simp
  next
    case (Some rd)
    obtain act buf'' where o: "on_readed buf' rd = (act, buf'')"
      by (cases "on_readed buf' rd")
    from Suc.prems a Some o
    have "act = Update key val \<or> Update key val \<in> set (read_loop n buf'' chunks')"
      by auto
    then show ?thesis
    proof
      assume "act = Update key val"
      with a Some o show ?thesis using on_readed_key by blast
    next
      assume "Update key val \<in> set (read_loop n buf'' chunks')"
      then show ?thesis by (rule Suc.IH)
    qed
  qed
qed

lemma ordered_serve: "ordered m \<Longrightarrow> ordered (fst (serve m as))"
proof (induction m as rule: serve.induct)
  case (3 m key val as)
  then show ?case
    using ordered_update [of m key val] by (auto split: prod.splits)
qed simp_all

lemma keys_serve:
  "ordered m \<Longrightarrow>
     fst ` set (fst (serve m as)) = fst ` set m \<union> {key. \<exists>val. Update key val \<in> set as}"
proof (induction as arbitrary: m)
  case Nil
  then show ?case by simp
next
  case (Cons a as)
  show ?case
  proof (cases a)
    case (Wrong_string sv)
    with Cons show ?thesis by simp
  next
    case (Update key val)
    have "fst ` set (fst (serve (fst (update m key val)) as)) =
        fst ` set (fst (update m key val)) \<union> {key. \<exists>val. Update key val \<in> set as}"
      using Cons.prems by (intro Cons.IH ordered_update)
    also have "fst ` set (fst (update m key val)) = insert key (fst ` set m)"
      using Cons.prems by (rule keys_update)
    finally show ?thesis
      unfolding Update serve_Update by auto
  qed
qed

text \<open>
  C8, as amended.  Every key a session submits is free of space and newline (it may be
  empty); and so is every key of the store the server builds from the empty map, whatever
  the sessions and however their updates interleave.
\<close>

theorem submitted_keys_have_no_space_or_newline:
  "(\<forall>key val. Update key val \<in> set (read_loop n buf chunks) \<longrightarrow>
       SP \<notin> set key \<and> LF \<notin> set key) \<and>
   ((\<forall>a \<in> set as. \<exists>n buf chunks. a \<in> set (read_loop n buf chunks)) \<longrightarrow>
      (\<forall>key \<in> fst ` set (fst (serve [] as)). SP \<notin> set key \<and> LF \<notin> set key))"
proof -
  have "SP \<notin> set key \<and> LF \<notin> set key"
    if "\<forall>a \<in> set as. \<exists>n buf chunks. a \<in> set (read_loop n buf chunks)"
      and "key \<in> fst ` set (fst (serve [] as))" for key
  proof -
    from that(2) obtain val where "Update key val \<in> set as"
      using keys_serve [OF ordered_Nil, of as] by auto
    with that(1) obtain n buf chunks where "Update key val \<in> set (read_loop n buf chunks)"
      by blast
    then show ?thesis by (rule read_loop_keys)
  qed
  then show ?thesis using read_loop_keys by blast
qed

theorem submitted_keys_have_no_space_or_newline_witness:
  "Update ''k'' ''v\<newline>'' \<in> set (read_loop (Suc 0) [] [''k v\<newline>'']) \<and>
   (\<exists>n buf chunks. Update ''k'' ''v\<newline>'' \<in> set (read_loop n buf chunks)) \<and>
   ''k'' \<in> fst ` set (fst (serve [] [Update ''k'' ''v\<newline>''])) \<and>
   SP \<notin> set ''k'' \<and> LF \<notin> set ''k''"
proof -
  have r: "read_loop (Suc 0) [] [''k v\<newline>''] = [Update ''k'' ''v\<newline>'']"
    by (simp add: LF_def SP_def on_readed_def)
  then have 1: "Update ''k'' ''v\<newline>'' \<in> set (read_loop (Suc 0) [] [''k v\<newline>''])"
    by simp
  then have 2: "\<forall>a \<in> set [Update ''k'' ''v\<newline>'']. \<exists>n buf chunks. a \<in> set (read_loop n buf chunks)"
    by (metis empty_iff empty_set set_ConsD)
  have 3: "''k'' \<in> fst ` set (fst (serve [] [Update ''k'' ''v\<newline>'']))"
    using keys_serve [OF ordered_Nil, of "[Update ''k'' ''v\<newline>'']"] by simp
  from 1 have 4: "\<exists>n buf chunks. Update ''k'' ''v\<newline>'' \<in> set (read_loop n buf chunks)"
    by blast
  from 1 2 3 4
    submitted_keys_have_no_space_or_newline
      [of "Suc 0" "[]" "[''k v\<newline>'']" "[Update ''k'' ''v\<newline>'']"]
  show ?thesis by blast
qed

text \<open>
  C8 as stated fails for a line that starts with a space: the session submits the empty
  key, and the store gets an entry for it.
\<close>

theorem empty_key_counterexample:
  "read_loop (Suc 0) [] ['' x\<newline>''] = [Update [] ''x\<newline>''] \<and>
   map fst (fst (serve [] (read_loop (Suc 0) [] ['' x\<newline>'']))) = [[]] \<and>
   length ([] :: string) = 0"
  by (simp add: LF_def SP_def on_readed_def update_def hash_calculated_def map_find_def)

section \<open>Iterating over the map\<close>

lemma nodes_after_nth:
  "distinct (map fst m) \<Longrightarrow> i < length m \<Longrightarrow> nodes_after m (fst (m ! i)) = Some (drop (Suc i) m)"
proof (induction m arbitrary: i)
  case Nil
  then show ?case by simp
next
  case (Cons e m)
  obtain k v where e: "e = (k, v)" by (cases e)
  show ?case
  proof (cases i)
    case 0
    then show ?thesis by (simp add: e)
  next
    case (Suc j)
    with Cons.prems have "fst (m ! j) \<in> fst ` set m" by simp
    with Cons.prems have "k \<noteq> fst (m ! j)" by (auto simp: e)
    with Cons Suc show ?thesis by (simp add: e)
  qed
qed

lemma deref_drop:
  "deref (drop i m) =
     (if i < length m then (False, At (fst (m ! i)), Some (fst (m ! i)), Some (snd (m ! i)))
      else (True, End, None, None))"
proof (cases "i < length m")
  case True
  then have "drop i m = m ! i # drop (Suc i) m" by (simp add: Cons_nth_drop_Suc)
  with True show ?thesis by (simp add: deref_def split: prod.splits)
next
  case False
  then show ?thesis by (simp add: deref_def)
qed

lemma get_next_impl_nth:
  assumes "distinct (map fst m)" and "i < length m"
  shows "get_next_impl m (At (fst (m ! i))) =
           Some (if Suc i < length m
                 then (False, At (fst (m ! Suc i)), Some (fst (m ! Suc i)), Some (snd (m ! Suc i)))
                 else (True, End, None, None))"
  using nodes_after_nth [OF assms] by (simp add: get_next_impl_def deref_drop)

lemma on_got_message_from:
  assumes "distinct (map fst m)"
  shows "i \<le> length m \<Longrightarrow> n = length m - i \<Longrightarrow>
           on_got_message (\<lambda>_. False) (Suc n) m (deref (drop i m)) =
             Some (map (\<lambda>(k, h). k @ [SP] @ h @ [LF]) (drop i m))"
proof (induction n arbitrary: i)
  case 0
  then show ?case by (simp add: deref_def)
next
  case (Suc n)
  then have i: "i < length m" and n: "n = length m - Suc i" and le: "Suc i \<le> length m"
    by simp_all
  have d: "drop i m = m ! i # drop (Suc i) m" using i by (simp add: Cons_nth_drop_Suc)
  have nx: "get_next_impl m (At (fst (m ! i))) = Some (deref (drop (Suc i) m))"
    using nodes_after_nth [OF assms i] by (simp add: get_next_impl_def)
  have ih: "on_got_message (\<lambda>_. False) (Suc n) m (deref (drop (Suc i) m)) =
      Some (map (\<lambda>(k, h). k @ [SP] @ h @ [LF]) (drop (Suc i) m))"
    using le n by (rule Suc.IH)
  show ?case
    unfolding deref_drop [of i] using i
    by (simp add: nx ih d split: prod.splits del: on_got_message.simps(2)
        add: on_got_message.simps(2) [of _ "Suc n"])
qed

lemma ordered_nth_less:
  "ordered m \<Longrightarrow> i < j \<Longrightarrow> j < length m \<Longrightarrow> fst (m ! i) < fst (m ! j)"
  using sorted_wrt_nth_less [of my_cmp "map fst m" i j]
  by (simp add: ordered_def my_cmp_def)

text \<open>
  C5.  \<^verbatim>\<open>get_first\<close> reports \<open>empty\<close> exactly for the map without entries, and
  otherwise the entry of the least key; \<^verbatim>\<open>get_next\<close> advances to the entry of the
  next key in lexicographic byte order, and reports \<open>at_end\<close> after the last one; and the
  sync of a session, over a map that does not change meanwhile, writes one line for every
  entry, each once, in ascending order of the keys.
\<close>

theorem snapshot_iterates_in_key_order:
  assumes "ordered m"
  shows "(fst (get_first_impl m) \<longleftrightarrow> m = []) \<and>
         (m \<noteq> [] \<longrightarrow>
            get_first_impl m = (False, At (fst (hd m)), Some (fst (hd m)), Some (snd (hd m))) \<and>
            (\<forall>k \<in> fst ` set m. fst (hd m) \<le> k)) \<and>
         (\<forall>i. Suc i < length m \<longrightarrow>
            get_next_impl m (At (fst (m ! i))) =
              Some (False, At (fst (m ! Suc i)), Some (fst (m ! Suc i)), Some (snd (m ! Suc i))) \<and>
            fst (m ! i) < fst (m ! Suc i) \<and>
            (\<forall>k \<in> fst ` set m. k \<le> fst (m ! i) \<or> fst (m ! Suc i) \<le> k)) \<and>
         (m \<noteq> [] \<longrightarrow> get_next_impl m (At (fst (last m))) = Some (True, End, None, None)) \<and>
         start_sync (\<lambda>_. False) (Suc (length m)) m = Some (map (\<lambda>(k, h). k @ [SP] @ h @ [LF]) m) \<and>
         sorted_wrt (<) (map fst m)"
proof -
  have dist: "distinct (map fst m)" using assms by (rule ordered_distinct)
  have nth_le: "fst (m ! i) \<le> fst (m ! j)" if "i \<le> j" "j < length m" for i j
    using that ordered_nth_less [OF assms, of i j] by (cases "i = j") auto
  have 1: "fst (get_first_impl m) \<longleftrightarrow> m = []"
    by (cases m) (auto simp: get_first_impl_def deref_def)
  have 2: "get_first_impl m = (False, At (fst (hd m)), Some (fst (hd m)), Some (snd (hd m))) \<and>
            (\<forall>k \<in> fst ` set m. fst (hd m) \<le> k)" if "m \<noteq> []"
  proof -
    from that have "get_first_impl m =
        (False, At (fst (hd m)), Some (fst (hd m)), Some (snd (hd m)))"
      by (cases m) (auto simp: get_first_impl_def deref_def)
    moreover have "fst (hd m) \<le> k" if "k \<in> fst ` set m" for k
    proof -
      from that obtain j where "j < length m" "k = fst (m ! j)"
        by (auto simp: in_set_conv_nth)
      with nth_le [of 0 j] \<open>m \<noteq> []\<close> show ?thesis by (simp add: hd_conv_nth)
    qed
    ultimately show ?thesis by blast
  qed
  have 3: "get_next_impl m (At (fst (m ! i))) =
              Some (False, At (fst (m ! Suc i)), Some (fst (m ! Suc i)), Some (snd (m ! Suc i))) \<and>
            fst (m ! i) < fst (m ! Suc i) \<and>
            (\<forall>k \<in> fst ` set m. k \<le> fst (m ! i) \<or> fst (m ! Suc i) \<le> k)"
    if "Suc i < length m" for i
  proof -
    have "k \<le> fst (m ! i) \<or> fst (m ! Suc i) \<le> k" if "k \<in> fst ` set m" for k
    proof -
      from that obtain j where j: "j < length m" "k = fst (m ! j)"
        by (auto simp: in_set_conv_nth)
      show ?thesis
      proof (cases "j \<le> i")
        case True
        with \<open>Suc i < length m\<close> j show ?thesis using nth_le [of j i] by simp
      next
        case False
        with j show ?thesis using nth_le [of "Suc i" j] by simp
      qed
    qed
    with that show ?thesis
      using get_next_impl_nth [OF dist, of i] ordered_nth_less [OF assms, of i "Suc i"]
      by simp
  qed
  have 4: "get_next_impl m (At (fst (last m))) = Some (True, End, None, None)" if "m \<noteq> []"
    using that get_next_impl_nth [OF dist, of "length m - 1"]
    by (simp add: last_conv_nth)
  have 5: "start_sync (\<lambda>_. False) (Suc (length m)) m =
      Some (map (\<lambda>(k, h). k @ [SP] @ h @ [LF]) m)"
    using on_got_message_from [OF dist, of 0 "length m"]
    by (simp add: start_sync_def get_first_impl_def)
  have 6: "sorted_wrt (<) (map fst m)"
    using assms by (simp add: ordered_def my_cmp_def [abs_def])
  from 1 2 3 4 5 6 show ?thesis by blast
qed

theorem snapshot_iterates_in_key_order_witness:
  "ordered [(''a'', ''1''), (''b'', ''2'')] \<and>
   get_first_impl [(''a'', ''1''), (''b'', ''2'')] = (False, At ''a'', Some ''a'', Some ''1'') \<and>
   get_next_impl [(''a'', ''1''), (''b'', ''2'')] (At ''a'') =
     Some (False, At ''b'', Some ''b'', Some ''2'') \<and>
   get_next_impl [(''a'', ''1''), (''b'', ''2'')] (At ''b'') = Some (True, End, None, None) \<and>
   start_sync (\<lambda>_. False) 3 [(''a'', ''1''), (''b'', ''2'')] =
     Some [''a 1\<newline>'', ''b 2\<newline>'']"
proof -
  let ?m = "[(''a'', ''1''), (''b'', ''2'')]"
  have o: "ordered ?m" by (simp add: ordered_def my_cmp_def)
  note t = snapshot_iterates_in_key_order [OF o]
  have ne: "?m \<noteq> []" and l: "Suc 0 < length ?m" by simp_all
  from t ne have 1: "get_first_impl ?m = (False, At ''a'', Some ''a'', Some ''1'')" by simp
  from t have "Suc 0 < length ?m \<longrightarrow>
      get_next_impl ?m (At (fst (?m ! 0))) =
        Some (False, At (fst (?m ! Suc 0)), Some (fst (?m ! Suc 0)), Some (snd (?m ! Suc 0)))"
    by blast
  with l have 2: "get_next_impl ?m (At ''a'') = Some (False, At ''b'', Some ''b'', Some ''2'')"
    by simp
  from t ne have 3: "get_next_impl ?m (At ''b'') = Some (True, End, None, None)" by simp
  from t have 4: "start_sync (\<lambda>_. False) 3 ?m = Some [''a 1\<newline>'', ''b 2\<newline>'']"
    by (simp add: SP_def LF_def eval_nat_numeral)
  from o 1 2 3 4 show ?thesis by blast
qed

section \<open>The hasher calls back in the order of submission\<close>








lemma map_of_nth_ids:
  assumes "\<forall>j < length q. fst (q ! j) = b + j" and "map_of q it = Some item"
  shows "\<exists>p < length q. it = b + p \<and> q ! p = (it, item)"
proof -
  from assms(2) have "(it, item) \<in> set q" by (rule map_of_SomeD)
  then obtain p where p: "p < length q" "q ! p = (it, item)" by (auto simp: in_set_conv_nth)
  with assms(1) have "it = b + p" by fastforce
  with p show ?thesis by blast
qed







section \<open>Updates go through the server in the order they are posted\<close>










lemma ids_distinct:
  assumes "\<forall>j < length q. fst (q ! j) = b + j"
  shows "distinct (map fst q)"
proof -
  have "map fst q = map (\<lambda>j. b + j) [0..<length q]"
    using assms by (intro nth_equalityI) simp_all
  moreover have "distinct (map (\<lambda>j. b + j) [0..<length q])"
    by (simp add: distinct_map inj_on_def)
  ultimately show ?thesis by simp
qed

lemma map_of_ids_iff:
  assumes "\<forall>j < length q. fst (q ! j) = b + j"
  shows "map_of q it = Some item \<longleftrightarrow> (\<exists>p < length q. it = b + p \<and> q ! p = (it, item))"
proof
  assume "map_of q it = Some item"
  with assms show "\<exists>p < length q. it = b + p \<and> q ! p = (it, item)"
    by (rule map_of_nth_ids)
next
  assume "\<exists>p < length q. it = b + p \<and> q ! p = (it, item)"
  then have "(it, item) \<in> set q" by (auto simp: in_set_conv_nth)
  with ids_distinct [OF assms] show "map_of q it = Some item" by simp
qed









section \<open>The line foo hello, from the socket to the socket\<close>

lemma read_foo_hello:
  "read_loop (Suc n) [] [''foo hello\<newline>''] = Update ''foo'' ''hello\<newline>'' # read_loop n [] []"
  by (simp add: SP_def LF_def on_readed_def)

lemma read_one_foo_hello:
  "read_one [] [''foo hello\<newline>''] = Some (Update ''foo'' ''hello\<newline>'', [], [])"
  by (simp add: read_one_def SP_def LF_def on_readed_def)

lemma serve_foo_hello:
  "serve [] [Update ''foo'' ''hello\<newline>''] =
     ([(''foo'', ''0xf572d396fae9206628714fb2ce00f72e94f2258f'')],
      [''foo 0xf572d396fae9206628714fb2ce00f72e94f2258f\<newline>''])"
  by (simp add: update_def hash_buf_hello_lf hash_calculated_def map_find_def on_updated_def
      SP_def LF_def)

lemma server_foo_hello:
  "map_option (\<lambda>st. (m_map st, written st 0))
     (server_run
        [Read_line 0, Run_store, Run_hasher, Finish_job 0, Run_hasher, Deliver, Run_store,
         Run_smgr, Run_session 0]
        (server_init (\<lambda>sid. ([], [''foo hello\<newline>''])) [0])) =
   Some ([(''foo'', ''0xf572d396fae9206628714fb2ce00f72e94f2258f'')],
         [''foo 0xf572d396fae9206628714fb2ce00f72e94f2258f\<newline>''])"
  by (simp add: server_init_def read_one_foo_hello hasher_init_def hash_impl_def pool_job_def
      on_hashed_def set_hash_def hash_buf_hello_lf post_callback_def hash_calculated_def
      map_find_def on_updated_def SP_def LF_def)

text \<open>
  C1, as amended.  Whatever the session's buffer holds and however the bytes arrive, when
  the unread bytes start with a line \<open>KEY SP VALUE LF\<close> (the key without space and
  newline, the value without newline), the next read submits the key with the bytes after
  the first space up to and including the newline, and leaves what follows the line for the
  reads after it.  After the update the hash stored for the key is the SHA-1 digest of those
  bytes, value and newline, as \<open>0x\<close> and 40 lower-case hexadecimal digits.  The line
  \<open>foo hello\<close> sent to an empty server stores, broadcasts and writes to the socket of the
  session that sent it \<open>foo 0xf572d396fae9206628714fb2ce00f72e94f2258f\<close>.
\<close>

theorem accepted_line_stores_hash_of_value_and_newline:
  assumes "SP \<notin> set key" and "LF \<notin> set key" and "LF \<notin> set val" and "ordered m"
    and "buf @ concat chunks = key @ [SP] @ val @ [LF] @ rest"
  shows "(\<exists>buf' chunks'.
            read_loop (Suc n) buf chunks = Update key (val @ [LF]) # read_loop n buf' chunks' \<and>
            buf' @ concat chunks' = rest) \<and>
         map_find (fst (serve m (take (Suc 0) (read_loop (Suc n) buf chunks)))) key =
           Some (key, hash_buf (val @ [LF])) \<and>
         hash_buf (val @ [LF]) = ''0x'' @ concat (map sprintf_08x (sha1 (val @ [LF]))) \<and>
         length (hash_buf (val @ [LF])) = 42 \<and>
         set (drop 2 (hash_buf (val @ [LF]))) \<subseteq> set ''0123456789abcdef'' \<and>
         serve [] (read_loop (Suc 0) [] [''foo hello\<newline>'']) =
           ([(''foo'', ''0xf572d396fae9206628714fb2ce00f72e94f2258f'')],
            [''foo 0xf572d396fae9206628714fb2ce00f72e94f2258f\<newline>'']) \<and>
         map_option (\<lambda>st. (m_map st, written st 0))
           (server_run
              [Read_line 0, Run_store, Run_hasher, Finish_job 0, Run_hasher, Deliver, Run_store,
               Run_smgr, Run_session 0]
              (server_init (\<lambda>sid. ([], [''foo hello\<newline>''])) [0])) =
           Some ([(''foo'', ''0xf572d396fae9206628714fb2ce00f72e94f2258f'')],
                 [''foo 0xf572d396fae9206628714fb2ce00f72e94f2258f\<newline>''])"
proof -
  from read_loop_accepts [OF assms(1-3,5), of n] obtain buf' chunks' where
    r: "read_loop (Suc n) buf chunks = Update key (val @ [LF]) # read_loop n buf' chunks'"
    and rest: "buf' @ concat chunks' = rest"
    by blast
  have f: "map_find (fst (serve m [Update key (val @ [LF])])) key =
      Some (key, hash_buf (val @ [LF]))"
    using assms(4) by (rule serve_one_find)
  have 1: "\<exists>buf' chunks'.
            read_loop (Suc n) buf chunks = Update key (val @ [LF]) # read_loop n buf' chunks' \<and>
            buf' @ concat chunks' = rest"
    using r rest by blast
  have 2: "map_find (fst (serve m (take (Suc 0) (read_loop (Suc n) buf chunks)))) key =
           Some (key, hash_buf (val @ [LF]))"
    unfolding r using f by simp
  have 3: "serve [] (read_loop (Suc 0) [] [''foo hello\<newline>'']) =
           ([(''foo'', ''0xf572d396fae9206628714fb2ce00f72e94f2258f'')],
            [''foo 0xf572d396fae9206628714fb2ce00f72e94f2258f\<newline>''])"
    unfolding read_foo_hello using serve_foo_hello by simp
  from 1 2 3 hash_buf_format [of "val @ [LF]"] hash_buf_eq [of "val @ [LF]"] server_foo_hello
  show ?thesis by blast
qed

theorem accepted_line_stores_hash_of_value_and_newline_witness:
  "SP \<notin> set ''a'' \<and> LF \<notin> set ''a'' \<and> LF \<notin> set ''b'' \<and> ordered [] \<and>
   ''a b\<newline>c'' @ concat ['' d\<newline>''] = ''a'' @ [SP] @ ''b'' @ [LF] @ ''c d\<newline>'' \<and>
   (\<exists>buf' chunks'.
      read_loop (Suc (Suc 0)) ''a b\<newline>c'' ['' d\<newline>''] =
        Update ''a'' (''b'' @ [LF]) # read_loop (Suc 0) buf' chunks' \<and>
      buf' @ concat chunks' = ''c d\<newline>'') \<and>
   map_find (fst (serve [] (take (Suc 0) (read_loop (Suc (Suc 0)) ''a b\<newline>c'' ['' d\<newline>''])))) ''a'' =
     Some (''a'', hash_buf (''b'' @ [LF])) \<and>
   read_loop (Suc (Suc 0)) ''a b\<newline>c'' ['' d\<newline>''] =
     [Update ''a'' ''b\<newline>'', Update ''c'' ''d\<newline>'']"
proof -
  have h: "SP \<notin> set ''a''" "LF \<notin> set ''a''" "LF \<notin> set ''b''" "ordered []"
    "''a b\<newline>c'' @ concat ['' d\<newline>''] = ''a'' @ [SP] @ ''b'' @ [LF] @ ''c d\<newline>''"
    by (simp_all add: SP_def LF_def ordered_def)
  have e: "read_loop (Suc (Suc 0)) ''a b\<newline>c'' ['' d\<newline>''] =
     [Update ''a'' ''b\<newline>'', Update ''c'' ''d\<newline>'']"
    by (simp add: SP_def LF_def on_readed_def)
  from h e accepted_line_stores_hash_of_value_and_newline [OF h, of "Suc 0"]
  show ?thesis by blast
qed

text \<open>
  C1 as stated fails at its own example: for the line \<open>foo hello\<close> the server does not
  store the digest of \<open>hello\<close>, and does not send back the line the claim gives.
\<close>

theorem foo_hello_counterexample:
  "hash_buf ''hello'' = ''0xaaf4c61ddcc5e8a2dabede0f3b482cd9aea9434d'' \<and>
   map_find (fst (serve [] (read_loop (Suc 0) [] [''foo hello\<newline>'']))) ''foo''
     \<noteq> Some (''foo'', hash_buf ''hello'') \<and>
   snd (serve [] (read_loop (Suc 0) [] [''foo hello\<newline>'']))
     \<noteq> [''foo 0xaaf4c61ddcc5e8a2dabede0f3b482cd9aea9434d\<newline>''] \<and>
   map_option (\<lambda>st. written st 0)
     (server_run
        [Read_line 0, Run_store, Run_hasher, Finish_job 0, Run_hasher, Deliver, Run_store,
         Run_smgr, Run_session 0]
        (server_init (\<lambda>sid. ([], [''foo hello\<newline>''])) [0]))
     \<noteq> Some [''foo 0xaaf4c61ddcc5e8a2dabede0f3b482cd9aea9434d\<newline>'']"
proof -
  have s: "serve [] (read_loop (Suc 0) [] [''foo hello\<newline>'']) =
           ([(''foo'', ''0xf572d396fae9206628714fb2ce00f72e94f2258f'')],
            [''foo 0xf572d396fae9206628714fb2ce00f72e94f2258f\<newline>''])"
    unfolding read_foo_hello using serve_foo_hello by simp
  have w: "map_option (\<lambda>st. written st 0)
     (server_run
        [Read_line 0, Run_store, Run_hasher, Finish_job 0, Run_hasher, Deliver, Run_store,
         Run_smgr, Run_session 0]
        (server_init (\<lambda>sid. ([], [''foo hello\<newline>''])) [0])) =
      Some [''foo 0xf572d396fae9206628714fb2ce00f72e94f2258f\<newline>'']"
    by (simp add: server_init_def read_one_foo_hello hasher_init_def hash_impl_def pool_job_def
        on_hashed_def set_hash_def hash_buf_hello_lf post_callback_def hash_calculated_def
        map_find_def on_updated_def SP_def LF_def)
  show ?thesis
    unfolding s w hash_buf_hello by (simp add: map_find_def my_cmp_def)
qed










section \<open>Two updates of one key on one connection\<close>

















end
